theory Spec2Isabelle
  imports Main
begin

section \<open>Data model of \<open>src/core/live_downloader.ts\<close>\<close>

text \<open>
  The class \<open>LiveDownloader\<close> downloads the chunks of a live stream with a bounded number
  of concurrent fetches and, when everything is drained, groups the downloaded chunks into
  runs and muxes each run. JavaScript numbers that hold chunk ids, retry counts and counters
  are modelled as \<open>int\<close> (they are integers far below 2^53 here), array lengths and
  loop indices as \<open>nat\<close>.
\<close>

datatype task_type = Video | Audio

text \<open>
  Paths are produced by \<open>path.resolve(workDirectoryName, ...)\<close>; the model keeps the working
  directory name and which file below it is meant. The time stamp in the names of the list
  files is replaced by the index of the output they are written for.
\<close>

datatype path =
    WorkDir string
  | VideoDownload string int
  | AudioDownload string int
  | VideoMerge string nat
  | AudioMerge string nat
  | VideoFiles string nat
  | AudioFiles string nat

record Task =
  type_task :: task_type
  url :: string
  id_task :: int
  retry :: int
  outputPath :: path

text \<open>
  The description of an output item is a template string. In the low-latency branch it
  interpolates the first and last task objects themselves (\<open>undefined\<close> for an empty
  run), in the list branch their ids.
\<close>

datatype description = DescTasks "Task option" "Task option" | DescIds int int

record OutputItem =
  description :: description
  path_item :: string

record LiveDownloader =
  keepTemporaryFiles :: bool
  workDirectoryName :: string
  outputFilename :: string
  unfinishedTasks :: "Task list"
  finishedTasks :: "Task list"
  dropedTasks :: "Task list"
  outputFiles :: "OutputItem list"
  maxRunningThreads :: int
  nowRunningThreads :: int
  stopFlag :: bool
  finishFlag :: bool
  isLowLatencyLiveStream :: bool
  inflight :: "Task list"
  beforeExitCalls :: nat
  exited :: bool

text \<open>
  The last three fields are not fields of the class. \<open>inflight\<close> holds the tasks owned by
  the suspended activations of \<open>checkQueue\<close> (each awaits \<open>handleTask(task)\<close>),
  \<open>beforeExitCalls\<close> counts the calls of \<open>beforeExit\<close>, and \<open>exited\<close> records the
  \<open>process.exit()\<close> of the second interrupt.
\<close>

section \<open>\<open>handleTask\<close>: the timeout of one fetch\<close>

definition handleTask_timeout :: "Task \<Rightarrow> int" where
  "handleTask_timeout task = min 45000 (15000 + 15000 * retry task)"

section \<open>\<open>beforeExit\<close>: planning the outputs\<close>

text \<open>
  \<open>audioIdFlags\<close> is a sparse JavaScript array used as a map from ids to \<open>true\<close>:
  \<open>for (const audioTask of finishedAudioTasks) audioIdFlags[audioTask.id] = true\<close>.
\<close>

definition audioIdFlags_of :: "Task list \<Rightarrow> (int \<rightharpoonup> bool)" where
  "audioIdFlags_of finishedAudioTasks =
     foldl (\<lambda>flags audioTask. flags(id_task audioTask \<mapsto> True)) Map.empty finishedAudioTasks"

text \<open>
  The callback of the filter tests \<open>!audioIdFlags\<close>, the array itself. Every JavaScript
  object is truthy, also an empty array.
\<close>

definition truthy_array :: "(int \<rightharpoonup> bool) \<Rightarrow> bool" where
  "truthy_array flags = True"

text \<open>
  \<open>finishedVideoTasks.filter(t => { if (!audioIdFlags) dropCounter++; return audioIdFlags[t.id]; })\<close>,
  returning the kept tasks and the counter.
\<close>

fun filterVideoTasks :: "(int \<rightharpoonup> bool) \<Rightarrow> Task list \<Rightarrow> nat \<Rightarrow> Task list \<times> nat" where
  "filterVideoTasks flags [] dropCounter = ([], dropCounter)"
| "filterVideoTasks flags (t # ts) dropCounter =
     (let dropCounter' = (if \<not> truthy_array flags then dropCounter + 1 else dropCounter);
          (kept, dropCounter'') = filterVideoTasks flags ts dropCounter'
      in (if flags (id_task t) = Some True then t # kept else kept, dropCounter''))"

text \<open>\<open>seqs[seqs.length - 1].push(t)\<close>; \<open>seqs\<close> is never empty where it is called.\<close>

definition pushLast :: "Task list list \<Rightarrow> Task \<Rightarrow> Task list list" where
  "pushLast seqs t = seqs[length seqs - 1 := seqs ! (length seqs - 1) @ [t]]"

text \<open>
  The loop \<open>for (let i = 1; i <= finishedVideoTasks.length - 1; i++)\<close> of lines 189 to 194.
\<close>

function seqsFor :: "Task list \<Rightarrow> nat \<Rightarrow> Task list list \<Rightarrow> Task list list" where
  "seqsFor v i seqs =
     (if int i \<le> int (length v) - 1 then
        seqsFor v (i + 1)
          (pushLast (if id_task (v ! i) - id_task (v ! (i - 1)) \<noteq> 1 then seqs @ [[]] else seqs) (v ! i))
      else seqs)"
  by pat_completeness auto
termination
  by (relation "measure (\<lambda>(v, i, seqs). length v - i)") auto

declare seqsFor.simps [simp del]

definition buildSeqs :: "Task list \<Rightarrow> Task list list" where
  "buildSeqs finishedVideoTasks =
     (if length finishedVideoTasks = 1 then [[finishedVideoTasks ! 0]]
      else seqsFor finishedVideoTasks 1 [[]])"

text \<open>
  What \<open>beforeExit\<close> has computed when it reaches line 196: nothing for an empty finished
  list, nothing after the count check failed, and otherwise the drop counter, the video tasks
  that survived the filter and the runs.
\<close>

datatype plan = NothingDone | CountMismatch | Plan nat "Task list" "Task list list"

definition sortById :: "Task list \<Rightarrow> Task list" where
  "sortById ts = sort_key id_task ts"

definition beforeExit_plan :: "Task list \<Rightarrow> plan" where
  "beforeExit_plan finished =
     (if length finished = 0 then NothingDone
      else
        let sorted = sortById finished;
            finishedVideoTasks = filter (\<lambda>t. type_task t = Video) sorted;
            finishedAudioTasks = filter (\<lambda>t. type_task t = Audio) sorted
        in if length finishedVideoTasks \<noteq> length finishedAudioTasks then CountMismatch
           else
             let (kept, dropCounter) =
                   filterVideoTasks (audioIdFlags_of finishedAudioTasks) finishedVideoTasks 0
             in Plan dropCounter kept (buildSeqs kept))"

section \<open>\<open>beforeExit\<close> and \<open>clean\<close>: the calls they make\<close>

text \<open>
  The calls to the logger, the file system, the muxer and the process are recorded in the
  order in which they happen. A log message is identified by its source line and the values
  it interpolates.
\<close>

datatype message =
    MsgCountMismatch
  | MsgTempFilesAt path
  | MsgDropped nat
  | MsgDiscontinuous
  | MsgOutputRange nat int int
  | MsgMergeVideo nat
  | MsgMergeAudio nat
  | MsgMux nat
  | MsgMuxFailed nat
  | MsgCleaning
  | MsgOutputAt string
  | MsgOutputList
  | MsgOutputItem description string

datatype effect =
    Info message
  | Warning message
  | Error message
  | Debug
  | MergeFiles "path list" path
  | WriteFile path "path list"
  | MuxTracks path path "nat option"
  | MuxSequences path path "nat option"
  | DeleteDirectory path
  | Disconnect
  | Exit
  | UncaughtTypeError
  | UncaughtError

text \<open>
  \<open>clean\<close> (lines 254 to 271), given the output files pushed so far.
\<close>

definition clean :: "LiveDownloader \<Rightarrow> OutputItem list \<Rightarrow> effect list" where
  "clean s outs =
     (if \<not> keepTemporaryFiles s
      then [Info MsgCleaning, DeleteDirectory (WorkDir (workDirectoryName s))] else [])
     @ [Disconnect]
     @ (if length outs > 0 then
          (if length outs = 1 then [Info (MsgOutputAt (path_item (outs ! 0)))]
           else Info MsgOutputList # map (\<lambda>item. Info (MsgOutputItem (description item) (path_item item))) outs)
        else [])
     @ [Exit]"

text \<open>
  The report of lines 197 to 202. \<open>seqs[i][0].id\<close> throws a TypeError when the run is
  empty; the loop is outside every \<open>try\<close>, so the exception ends \<open>beforeExit\<close>. The
  result is the messages logged and whether the loop ran to its end.
\<close>

fun reportLoop :: "nat \<Rightarrow> Task list list \<Rightarrow> effect list \<times> bool" where
  "reportLoop i [] = ([], True)"
| "reportLoop i (sq # rest) =
     (case sq of
        [] \<Rightarrow> ([], False)
      | t # ts \<Rightarrow>
          (let (effs, ok) = reportLoop (i + 1) rest
           in (Info (MsgOutputRange (i + 1) (id_task t) (id_task (last sq))) # effs, ok)))"

definition reportSeqs :: "Task list list \<Rightarrow> effect list \<times> bool" where
  "reportSeqs seqs =
     (if length seqs > 1 then
        (let (effs, ok) = reportLoop 0 seqs in (Info MsgDiscontinuous # effs, ok))
      else ([], True))"

text \<open>
  \<open>seqs[i][0]\<close> and \<open>seqs[i][seqs[i].length - 1]\<close>: \<open>undefined\<close> on an empty run.
\<close>

definition firstOf :: "Task list \<Rightarrow> Task option" where
  "firstOf sq = (case sq of [] \<Rightarrow> None | t # ts \<Rightarrow> Some t)"

definition lastOf :: "Task list \<Rightarrow> Task option" where
  "lastOf sq = (case sq of [] \<Rightarrow> None | t # ts \<Rightarrow> Some (last sq))"

definition suffixOf :: "bool \<Rightarrow> nat \<Rightarrow> nat option" where
  "suffixOf useSuffix i = (if useSuffix then Some (i + 1) else None)"

text \<open>
  The call of the muxer for output \<open>i\<close>: \<open>this.merge\<close> in the low-latency branch,
  \<open>this.mergeSequences\<close> otherwise.
\<close>

definition muxCall :: "LiveDownloader \<Rightarrow> bool \<Rightarrow> nat \<Rightarrow> effect" where
  "muxCall s useSuffix i =
     (let w = workDirectoryName s in
      if isLowLatencyLiveStream s
      then MuxTracks (VideoMerge w i) (AudioMerge w i) (suffixOf useSuffix i)
      else MuxSequences (VideoFiles w i) (AudioFiles w i) (suffixOf useSuffix i))"

text \<open>
  What the surroundings of \<open>beforeExit\<close> decide. The promise returned by \<open>merge\<close> and
  \<open>mergeSequences\<close> resolves with the name of the written file on the muxer's
  \<open>success\<close> event and is rejected on its \<open>fail\<close> event: \<open>muxResult env i\<close> is
  \<open>Some\<close> of that name, or \<open>None\<close>, for output \<open>i\<close>. \<open>mergeFiles\<close> may reject and
  \<open>fs.writeFileSync\<close> may throw: \<open>mergeFilesFails\<close> and \<open>writeFileFails\<close> say so for the
  file that is to be written.
\<close>

record environment =
  muxResult :: "nat \<Rightarrow> string option"
  mergeFilesFails :: "path \<Rightarrow> bool"
  writeFileFails :: "path \<Rightarrow> bool"

text \<open>
  One round of the loop of lines 204 to 250: the calls made, the output files, and whether
  the round came to its end. The rejection of the muxer's promise is caught by the \<open>try\<close>
  around the call. In the list branch the description reads \<open>seqs[i][0].id\<close> inside the
  same \<open>try\<close>, so its TypeError on an empty run is caught as well. The two awaited calls
  of \<open>mergeFiles\<close> (lines 210 and 212) and the two calls of \<open>fs.writeFileSync\<close> (lines 227
  to 238) stand before the \<open>try\<close>: when one of them fails, the exception leaves the loop
  and \<open>beforeExit\<close>.
\<close>

definition mergeOne ::
  "LiveDownloader \<Rightarrow> environment \<Rightarrow> bool \<Rightarrow> nat \<Rightarrow> Task list \<Rightarrow> OutputItem list
     \<Rightarrow> effect list \<times> OutputItem list \<times> bool" where
  "mergeOne s env useSuffix i sq outs =
     (let w = workDirectoryName s; ids = map id_task sq in
      if isLowLatencyLiveStream s then
        (let video = [Info (MsgMergeVideo (i + 1)),
                      MergeFiles (map (VideoDownload w) ids) (VideoMerge w i)];
             audio = [Info (MsgMergeAudio (i + 1)),
                      MergeFiles (map (AudioDownload w) ids) (AudioMerge w i)];
             pre = video @ audio @ [Info (MsgMux (i + 1)), muxCall s useSuffix i]
         in if mergeFilesFails env (VideoMerge w i) then (video, outs, False)
            else if mergeFilesFails env (AudioMerge w i) then (video @ audio, outs, False)
            else case muxResult env i of
              Some filename \<Rightarrow>
                (pre,
                 outs @ [\<lparr>description = DescTasks (firstOf sq) (lastOf sq), path_item = filename\<rparr>],
                 True)
            | None \<Rightarrow> (pre @ [Debug, Error (MsgMuxFailed (i + 1))], outs, True))
      else
        (let video = [WriteFile (VideoFiles w i) (map (VideoDownload w) ids)];
             audio = [WriteFile (AudioFiles w i) (map (AudioDownload w) ids)];
             pre = video @ audio @ [muxCall s useSuffix i]
         in if writeFileFails env (VideoFiles w i) then (video, outs, False)
            else if writeFileFails env (AudioFiles w i) then (video @ audio, outs, False)
            else case muxResult env i of
              Some filename \<Rightarrow>
                (case sq of
                   [] \<Rightarrow> (pre @ [Debug, Error (MsgMuxFailed (i + 1))], outs, True)
                 | t # ts \<Rightarrow>
                     (pre,
                      outs @ [\<lparr>description = DescIds (id_task t) (id_task (last sq)),
                               path_item = filename\<rparr>],
                      True))
            | None \<Rightarrow> (pre @ [Debug, Error (MsgMuxFailed (i + 1))], outs, True)))"

text \<open>The loop: it goes on to the next run only when the round came to its end.\<close>

fun mergeLoop ::
  "LiveDownloader \<Rightarrow> environment \<Rightarrow> bool \<Rightarrow> nat \<Rightarrow> Task list list \<Rightarrow> OutputItem list
     \<Rightarrow> effect list \<times> OutputItem list \<times> bool" where
  "mergeLoop s env useSuffix i [] outs = ([], outs, True)"
| "mergeLoop s env useSuffix i (sq # rest) outs =
     (let (effs1, outs1, ok1) = mergeOne s env useSuffix i sq outs
      in if \<not> ok1 then (effs1, outs1, False)
         else
           (let (effs2, outs2, ok2) = mergeLoop s env useSuffix (i + 1) rest outs1
            in (effs1 @ effs2, outs2, ok2)))"

text \<open>
  Lines 203 to 251: the merge loop followed by \<open>this.clean()\<close>, which is reached only when
  the loop came to its end.
\<close>

definition mergeAndClean ::
  "LiveDownloader \<Rightarrow> environment \<Rightarrow> Task list list \<Rightarrow> effect list \<times> OutputItem list" where
  "mergeAndClean s env seqs =
     (let useSuffix = length seqs > 1;
          (effs, outs, ok) = mergeLoop s env useSuffix 0 seqs (outputFiles s)
      in if ok then (effs @ clean s outs, outs) else (effs @ [UncaughtError], outs))"

text \<open>
  \<open>beforeExit\<close> run to its end: the object afterwards (\<open>finishedTasks\<close> sorted in place,
  \<open>outputFiles\<close> extended) and the calls made. \<open>process.exit()\<close> ends the run at once.
\<close>

definition beforeExit ::
  "environment \<Rightarrow> LiveDownloader \<Rightarrow> LiveDownloader \<times> effect list" where
  "beforeExit env s =
     (case beforeExit_plan (finishedTasks s) of
        NothingDone \<Rightarrow> (s, clean s (outputFiles s))
      | CountMismatch \<Rightarrow>
          (s\<lparr>finishedTasks := sortById (finishedTasks s)\<rparr>,
           [Error MsgCountMismatch, Error (MsgTempFilesAt (WorkDir (workDirectoryName s))), Exit])
      | Plan dropCounter kept seqs \<Rightarrow>
          (let s1 = s\<lparr>finishedTasks := sortById (finishedTasks s)\<rparr>;
               warn = (if dropCounter > 0 then [Warning (MsgDropped dropCounter)] else []);
               (rep, ok) = reportSeqs seqs
           in if \<not> ok then (s1, warn @ rep @ [UncaughtTypeError])
              else
                (let (effs, outs) = mergeAndClean s1 env seqs
                 in (s1\<lparr>outputFiles := outs\<rparr>, warn @ rep @ effs))))"

section \<open>The scheduler: \<open>start\<close> and \<open>checkQueue\<close>\<close>

text \<open>
  The object after the constructor and \<open>start\<close> have run, before the first event.
\<close>

definition initial :: "bool \<Rightarrow> bool \<Rightarrow> string \<Rightarrow> string \<Rightarrow> LiveDownloader" where
  "initial keep lowLatency workDir outName =
     \<lparr>keepTemporaryFiles = keep, workDirectoryName = workDir, outputFilename = outName,
      unfinishedTasks = [], finishedTasks = [], dropedTasks = [], outputFiles = [],
      maxRunningThreads = 16, nowRunningThreads = 0, stopFlag = False, finishFlag = False,
      isLowLatencyLiveStream = lowLatency, inflight = [], beforeExitCalls = 0, exited = False\<rparr>"

text \<open>
  Lines 117 to 122. \<open>beforeExit\<close> is an async function: the call runs it up to its first
  \<open>await\<close> and the rest later. Of its work only the sorting of \<open>finishedTasks\<close> touches
  a field that \<open>checkQueue\<close> uses, and it happens before the first \<open>await\<close>; the call is
  counted. What \<open>beforeExit\<close> does with the finished tasks is the function \<open>beforeExit\<close>
  above. The scheduler keeps taking events after the call: whenever the process exits, the
  events seen so far are a run of this model.
\<close>

definition completionCheck :: "LiveDownloader \<Rightarrow> LiveDownloader" where
  "completionCheck s =
     (if nowRunningThreads s = 0 \<and> length (unfinishedTasks s) = 0 \<and> stopFlag s then
        (if \<not> finishFlag s then
           s\<lparr>finishFlag := True,
             beforeExitCalls := beforeExitCalls s + 1,
             finishedTasks := sortById (finishedTasks s)\<rparr>
         else s)
      else s)"

text \<open>
  Lines 129 and 130: \<open>this.nowRunningThreads++; const task = this.unfinishedTasks.shift()\<close>.
  The task now belongs to this activation.
\<close>

definition startNext :: "LiveDownloader \<Rightarrow> LiveDownloader" where
  "startNext s =
     s\<lparr>nowRunningThreads := nowRunningThreads s + 1,
       unfinishedTasks := tl (unfinishedTasks s),
       inflight := inflight s @ [hd (unfinishedTasks s)]\<rparr>"

text \<open>
  \<open>checkQueue\<close> up to its \<open>await\<close>: the check for completion, the two early returns, and
  the recursive call made right after a task was taken from the queue.
\<close>

function checkQueue :: "LiveDownloader \<Rightarrow> LiveDownloader" where
  "checkQueue s =
     (let s1 = completionCheck s in
      if nowRunningThreads s1 \<ge> maxRunningThreads s1 then s1
      else if length (unfinishedTasks s1) = 0 then s1
      else checkQueue (startNext s1))"
  by pat_completeness auto
termination
  by (relation "measure (\<lambda>s. length (unfinishedTasks s))")
    (auto simp: startNext_def completionCheck_def split: if_splits)

declare checkQueue.simps [simp del]

definition removeAt :: "nat \<Rightarrow> 'a list \<Rightarrow> 'a list" where
  "removeAt k xs = take k xs @ drop (k + 1) xs"

text \<open>
  Lines 135 to 137, after \<open>await this.handleTask(task)\<close> has resolved for the \<open>k\<close>-th task
  in flight, and line 138, the call of \<open>checkQueue\<close> that follows.
\<close>

definition checkQueue_then :: "nat \<Rightarrow> LiveDownloader \<Rightarrow> LiveDownloader" where
  "checkQueue_then k s =
     (let task = inflight s ! k in
      s\<lparr>inflight := removeAt k (inflight s),
        finishedTasks := finishedTasks s @ [task],
        nowRunningThreads := nowRunningThreads s - 1\<rparr>)"

definition checkQueue_resolved :: "nat \<Rightarrow> LiveDownloader \<Rightarrow> LiveDownloader" where
  "checkQueue_resolved k s = checkQueue (checkQueue_then k s)"

text \<open>
  Lines 140 to 145, the \<open>catch\<close> block before its call of \<open>checkQueue\<close>, after the fetch of
  the \<open>k\<close>-th task in flight has failed or timed out.
\<close>

definition checkQueue_catch :: "nat \<Rightarrow> LiveDownloader \<Rightarrow> LiveDownloader" where
  "checkQueue_catch k s =
     (let task = (inflight s ! k)\<lparr>retry := retry (inflight s ! k) + 1\<rparr>;
          s1 = s\<lparr>inflight := removeAt k (inflight s),
                 nowRunningThreads := nowRunningThreads s - 1\<rparr>
      in if retry task \<le> 10 then s1\<lparr>unfinishedTasks := unfinishedTasks s1 @ [task]\<rparr> else s1)"

definition checkQueue_rejected :: "nat \<Rightarrow> LiveDownloader \<Rightarrow> LiveDownloader" where
  "checkQueue_rejected k s = checkQueue (checkQueue_catch k s)"

text \<open>The tasks built by the handlers of \<open>new-video-chunks\<close> and \<open>new-audio-chunks\<close>.\<close>

definition newTask :: "task_type \<Rightarrow> string \<Rightarrow> int \<times> string \<Rightarrow> Task" where
  "newTask k w u =
     \<lparr>type_task = k, url = snd u, id_task = fst u, retry = 0,
      outputPath = (case k of Video \<Rightarrow> VideoDownload w (fst u) | Audio \<Rightarrow> AudioDownload w (fst u))\<rparr>"

text \<open>
  The events of a run: the three events of the observer, the interrupt signal, and the end of
  the fetch of the \<open>k\<close>-th task in flight, with success or with failure. An event that
  cannot happen (the process has exited, no such fetch) has no successor. The handlers are
  those registered in \<open>start\<close>; their calls of the logger and of \<open>observer.disconnect\<close>
  change no field and are left out.
\<close>

datatype event =
    NewVideoChunks "(int \<times> string) list"
  | NewAudioChunks "(int \<times> string) list"
  | End
  | Sigint
  | Downloaded nat
  | Failed nat

definition step :: "event \<Rightarrow> LiveDownloader \<Rightarrow> LiveDownloader option" where
  "step e s =
     (if exited s then None
      else case e of
        NewVideoChunks urls \<Rightarrow>
          Some (checkQueue (s\<lparr>unfinishedTasks :=
                  unfinishedTasks s @ map (newTask Video (workDirectoryName s)) urls\<rparr>))
      | NewAudioChunks urls \<Rightarrow>
          Some (checkQueue (s\<lparr>unfinishedTasks :=
                  unfinishedTasks s @ map (newTask Audio (workDirectoryName s)) urls\<rparr>))
      | End \<Rightarrow> Some (checkQueue (s\<lparr>stopFlag := True\<rparr>))
      | Sigint \<Rightarrow>
          (if \<not> stopFlag s then Some (checkQueue (s\<lparr>stopFlag := True\<rparr>))
           else Some (s\<lparr>exited := True\<rparr>))
      | Downloaded k \<Rightarrow>
          (if k < length (inflight s) then Some (checkQueue_resolved k s) else None)
      | Failed k \<Rightarrow>
          (if k < length (inflight s) then Some (checkQueue_rejected k s) else None))"

fun exec :: "event list \<Rightarrow> LiveDownloader \<Rightarrow> LiveDownloader option" where
  "exec [] s = Some s"
| "exec (e # es) s = (case step e s of None \<Rightarrow> None | Some s' \<Rightarrow> exec es s')"

text \<open>The number of tasks the observer has announced in a list of events.\<close>

fun discovered :: "event list \<Rightarrow> nat" where
  "discovered [] = 0"
| "discovered (NewVideoChunks urls # es) = length urls + discovered es"
| "discovered (NewAudioChunks urls # es) = length urls + discovered es"
| "discovered (e # es) = discovered es"

section \<open>Notions used in the statements and proofs\<close>

text \<open>The calls of the muxer among the recorded calls.\<close>

fun isMux :: "effect \<Rightarrow> bool" where
  "isMux (MuxTracks v a x) = True"
| "isMux (MuxSequences v a x) = True"
| "isMux e = False"

text \<open>The lines written by the logger at level info.\<close>

fun isInfo :: "effect \<Rightarrow> bool" where
  "isInfo (Info m) = True"
| "isInfo e = False"

text \<open>
  The files for output \<open>i\<close> get written before the muxer is called: the two calls of
  \<open>mergeFiles\<close> in the low-latency branch, the two of \<open>fs.writeFileSync\<close> otherwise.
\<close>

definition prepared :: "LiveDownloader \<Rightarrow> environment \<Rightarrow> nat \<Rightarrow> bool" where
  "prepared s env i =
     (let w = workDirectoryName s in
      if isLowLatencyLiveStream s
      then \<not> mergeFilesFails env (VideoMerge w i) \<and> \<not> mergeFilesFails env (AudioMerge w i)
      else \<not> writeFileFails env (VideoFiles w i) \<and> \<not> writeFileFails env (AudioFiles w i))"

text \<open>The ids in a plan: the drop counter, the ids kept and the ids of each run.\<close>

fun planIds :: "plan \<Rightarrow> (nat \<times> int list \<times> int list list) option" where
  "planIds (Plan dropCounter kept seqs) = Some (dropCounter, map id_task kept, map (map id_task) seqs)"
| "planIds p = None"

text \<open>
  The invariant of the scheduler: the cap is 16, the counter of running fetches is the number
  of tasks in flight and stays between 0 and the cap, \<open>dropedTasks\<close> is empty,
  \<open>beforeExit\<close> has been called once if \<open>finishFlag\<close> is set and never otherwise, and
  every task that is queued, in flight or finished has failed at most 10 times.
\<close>

definition sched_inv :: "LiveDownloader \<Rightarrow> bool" where
  "sched_inv s \<longleftrightarrow>
     maxRunningThreads s = 16
   \<and> 0 \<le> nowRunningThreads s
   \<and> nowRunningThreads s \<le> maxRunningThreads s
   \<and> nowRunningThreads s = int (length (inflight s))
   \<and> dropedTasks s = []
   \<and> beforeExitCalls s = (if finishFlag s then 1 else 0)
   \<and> (\<forall>t \<in> set (unfinishedTasks s) \<union> set (inflight s) \<union> set (finishedTasks s).
         0 \<le> retry t \<and> retry t \<le> 10)"

text \<open>Whenever the condition of line 117 holds, \<open>finishFlag\<close> is set.\<close>

definition latched :: "LiveDownloader \<Rightarrow> bool" where
  "latched s \<longleftrightarrow>
     (nowRunningThreads s = 0 \<and> unfinishedTasks s = [] \<and> stopFlag s \<longrightarrow> finishFlag s)"

text \<open>The tasks the object holds: finished, dropped, queued and in flight.\<close>

definition tracked :: "LiveDownloader \<Rightarrow> nat" where
  "tracked s = length (finishedTasks s) + length (dropedTasks s)
             + length (unfinishedTasks s) + length (inflight s)"

section \<open>Concrete inputs\<close>

definition videoTask :: "int \<Rightarrow> Task" where
  "videoTask i = newTask Video ''kkr_download_1'' (i, ''https://v'')"

definition audioTask :: "int \<Rightarrow> Task" where
  "audioTask i = newTask Audio ''kkr_download_1'' (i, ''https://a'')"

definition downloader :: LiveDownloader where
  "downloader = initial False False ''kkr_download_1'' ''title''"

text \<open>Finished video ids 1, 2, 3, 7, 8, 10 with the same audio ids, in the order of arrival.\<close>

definition contiguity_example :: "Task list" where
  "contiguity_example =
     map videoTask [7, 1, 10, 2] @ map audioTask [1, 2, 3, 7, 8, 10] @ map videoTask [8, 3]"

text \<open>Finished video ids 1, 2, 3 with audio ids 1, 3, and with audio ids 1, 3, 5.\<close>

definition orphan_example :: "Task list" where
  "orphan_example = map videoTask [1, 2, 3] @ map audioTask [1, 3]"

definition orphan_example_equal_counts :: "Task list" where
  "orphan_example_equal_counts = map videoTask [1, 2, 3] @ map audioTask [1, 3, 5]"

definition mismatch_example :: LiveDownloader where
  "mismatch_example = downloader\<lparr>finishedTasks := map videoTask [1, 2] @ map audioTask [1]\<rparr>"

text \<open>
  A run in which a video chunk is downloaded and the audio chunk of the same id fails eleven
  times before the stream ends.
\<close>

definition lossy_run :: "event list" where
  "lossy_run =
     [NewVideoChunks [(1, ''https://v'')], NewAudioChunks [(1, ''https://a'')], Downloaded 0]
     @ replicate 11 (Failed 0) @ [End]"

text \<open>
  A run in which the fetch of chunk 1 fails eleven times while that of chunk 2 is still in
  flight. After its first failure the task of chunk 1 is started again and is the second
  task in flight.
\<close>

definition exhausting_run :: "event list" where
  "exhausting_run =
     [NewVideoChunks [(1, ''https://v''), (2, ''https://v'')], Failed 0] @ replicate 10 (Failed 1)"

text \<open>
  A run that drains and then sees the condition of line 117 three more times: the stream
  ends twice and a chunk arrives late.
\<close>

definition drained_run :: "event list" where
  "drained_run =
     [NewVideoChunks [(1, ''https://v'')], Downloaded 0, End, End,
      NewAudioChunks [(1, ''https://a'')], Downloaded 0]"

text \<open>Twenty chunks announced at once.\<close>

definition burst_run :: "event list" where
  "burst_run = [NewVideoChunks (map (\<lambda>i. (i, ''https://v'')) [1, 2, 3, 4, 5, 6, 7, 8, 9, 10,
     11, 12, 13, 14, 15, 16, 17, 18, 19, 20])]"

text \<open>
  Two runs to merge. In the first surroundings every file gets written, the muxer fails on
  the first run and succeeds on the second. In the second the muxer always succeeds, but
  \<open>mergeFiles\<close> fails on the video file of the first run.
\<close>

definition two_seqs :: "Task list list" where
  "two_seqs = [[videoTask 2, videoTask 3], [videoTask 7]]"

definition failing_first :: environment where
  "failing_first =
     \<lparr>muxResult = (\<lambda>i. if i = 0 then None else Some ''title_2.mp4''),
      mergeFilesFails = (\<lambda>p. False),
      writeFileFails = (\<lambda>p. False)\<rparr>"

definition concat_fails :: environment where
  "concat_fails =
     \<lparr>muxResult = (\<lambda>i. Some ''title.mp4''),
      mergeFilesFails = (\<lambda>p. p = VideoMerge ''kkr_download_1'' 0),
      writeFileFails = (\<lambda>p. False)\<rparr>"

definition lowLatencyDownloader :: LiveDownloader where
  "lowLatencyDownloader = initial False True ''kkr_download_1'' ''title''"

section \<open>The timeout of a fetch\<close>

text \<open>
  C8. The timeout handed to the download of a task is
  \<open>min(45000, 15000 + 15000 * retry)\<close> milliseconds: 15000 for a task that has not
  failed yet, 45000 after two failures, and 45000 for every larger retry count, so also for
  five and more.
\<close>

theorem handleTask_timeout_scaling:
  "handleTask_timeout task = min 45000 (15000 + 15000 * retry task)
   \<and> handleTask_timeout (task\<lparr>retry := 0\<rparr>) = 15000
   \<and> handleTask_timeout (task\<lparr>retry := 2\<rparr>) = 45000
   \<and> (2 \<le> retry task \<longrightarrow> handleTask_timeout task = 45000)"
  by (simp add: handleTask_timeout_def)

theorem handleTask_timeout_scaling_witness:
  "2 \<le> retry ((videoTask 1)\<lparr>retry := 5\<rparr>)
   \<and> handleTask_timeout ((videoTask 1)\<lparr>retry := 5\<rparr>) = 45000"
  using handleTask_timeout_scaling [of "(videoTask 1)\<lparr>retry := 5\<rparr>"] by simp

section \<open>Planning the outputs\<close>

lemma length_filter_sortById:
  "length (filter P (sortById ts)) = length (filter P ts)"
  by (simp add: sortById_def filter_sort)

lemma set_sortById [simp]: "set (sortById ts) = set ts"
  by (simp add: sortById_def)

lemma sorted_sortById: "sorted (map id_task (sortById ts))"
  by (simp add: sortById_def)

lemma audioIdFlags_foldl:
  "foldl (\<lambda>flags audioTask. flags(id_task audioTask \<mapsto> True)) m as i =
     (if i \<in> id_task ` set as then Some True else m i)"
  by (induction as arbitrary: m) auto

lemma audioIdFlags_of_iff:
  "audioIdFlags_of as i = Some True \<longleftrightarrow> i \<in> id_task ` set as"
  by (simp add: audioIdFlags_of_def audioIdFlags_foldl)

lemma fst_filterVideoTasks:
  "fst (filterVideoTasks flags ts d) = filter (\<lambda>t. flags (id_task t) = Some True) ts"
  by (induction ts arbitrary: d) (simp_all add: Let_def split_def)

text \<open>The counter comes back as it went in: the test \<open>!audioIdFlags\<close> never succeeds.\<close>

lemma snd_filterVideoTasks:
  "snd (filterVideoTasks flags ts d) = d"
  by (induction ts arbitrary: d) (simp_all add: Let_def split_def truthy_array_def)

lemma beforeExit_plan_mismatch:
  assumes "length (filter (\<lambda>t. type_task t = Video) finished)
             \<noteq> length (filter (\<lambda>t. type_task t = Audio) finished)"
  shows "beforeExit_plan finished = CountMismatch"
proof -
  from assms have "finished \<noteq> []" by auto
  with assms show ?thesis
    by (simp add: beforeExit_plan_def Let_def length_filter_sortById)
qed

lemma beforeExit_plan_PlanD:
  assumes "beforeExit_plan finished = Plan dropCounter kept seqs"
  shows "length (filter (\<lambda>t. type_task t = Video) finished)
           = length (filter (\<lambda>t. type_task t = Audio) finished)"
    and "kept = filter (\<lambda>t. id_task t \<in> id_task ` set (filter (\<lambda>t. type_task t = Audio) finished))
                  (sortById (filter (\<lambda>t. type_task t = Video) finished))"
proof -
  let ?v = "filter (\<lambda>t. type_task t = Video) (sortById finished)"
  let ?a = "filter (\<lambda>t. type_task t = Audio) (sortById finished)"
  from assms have eq: "length ?v = length ?a"
    and k: "kept = fst (filterVideoTasks (audioIdFlags_of ?a) ?v 0)"
    by (auto simp: beforeExit_plan_def Let_def split: if_splits prod.splits)
  from eq show "length (filter (\<lambda>t. type_task t = Video) finished)
           = length (filter (\<lambda>t. type_task t = Audio) finished)"
    by (simp add: length_filter_sortById)
  have "?v = sortById (filter (\<lambda>t. type_task t = Video) finished)"
    by (simp add: sortById_def filter_sort)
  moreover have "set ?a = set (filter (\<lambda>t. type_task t = Audio) finished)"
    by simp
  ultimately show "kept = filter (\<lambda>t. id_task t \<in> id_task ` set (filter (\<lambda>t. type_task t = Audio) finished))
                  (sortById (filter (\<lambda>t. type_task t = Video) finished))"
    using k by (simp add: fst_filterVideoTasks audioIdFlags_of_iff)
qed

text \<open>
  The loop of \<open>buildSeqs\<close> starts at index 1 and pushes \<open>finishedVideoTasks[i]\<close> only, so
  whenever there is not exactly one task the runs hold every task but the first.
\<close>

lemma concat_pushLast: "seqs \<noteq> [] \<Longrightarrow> concat (pushLast seqs t) = concat seqs @ [t]"
proof (induction seqs rule: rev_induct)
  case Nil
  then show ?case by simp
next
  case (snoc sq seqs)
  then show ?case by (simp add: pushLast_def)
qed

lemma pushLast_nonempty: "seqs \<noteq> [] \<Longrightarrow> pushLast seqs t \<noteq> []"
  by (simp add: pushLast_def)

lemma concat_seqsFor:
  "seqs \<noteq> [] \<Longrightarrow> concat (seqsFor v i seqs) = concat seqs @ drop i v"
proof (induction v i seqs rule: seqsFor.induct)
  case (1 v i seqs)
  show ?case
  proof (cases "int i \<le> int (length v) - 1")
    case True
    then have i: "i < length v" by simp
    let ?seqs' = "if id_task (v ! i) - id_task (v ! (i - 1)) \<noteq> 1 then seqs @ [[]] else seqs"
    have ne: "?seqs' \<noteq> []" using "1.prems" by simp
    have c: "concat ?seqs' = concat seqs" by simp
    have "concat (seqsFor v (i + 1) (pushLast ?seqs' (v ! i)))
            = concat (pushLast ?seqs' (v ! i)) @ drop (i + 1) v"
      using "1.IH" [OF True] pushLast_nonempty [OF ne] by blast
    also have "\<dots> = concat seqs @ [v ! i] @ drop (i + 1) v"
      using concat_pushLast [OF ne] c by simp
    also have "\<dots> = concat seqs @ drop i v"
      using i by (simp add: Cons_nth_drop_Suc)
    finally show ?thesis using True by (subst seqsFor.simps) simp
  next
    case False
    then show ?thesis by (subst seqsFor.simps) simp
  qed
qed

lemma buildSeqs_loses_first:
  "length v \<noteq> 1 \<Longrightarrow> concat (buildSeqs v) = tl v"
  by (simp add: buildSeqs_def concat_seqsFor drop_Suc)

text \<open>
  C1. For the finished video ids 1, 2, 3, 7, 8, 10 with the same audio ids the specification
  expects the runs 1-2-3, 7-8 and 10. The tasks are sorted by id and all six video tasks survive the
  filter, but the first run computed is 2-3: the task with id 1 is in no run.
\<close>

theorem contiguity_example_loses_first_task:
  "planIds (beforeExit_plan contiguity_example) =
     Some (0, [1, 2, 3, 7, 8, 10], [[2, 3], [7, 8], [10]])"
  by code_simp

text \<open>
  C2, as amended. When \<open>beforeExit\<close> gets as far as the filter, the finished list holds as
  many video tasks as audio tasks, and the video tasks kept are the finished video tasks
  whose id is the id of a finished audio task, in ascending order of id. For the finished
  video ids 1, 2, 3 and audio ids 1, 3 the counts differ and nothing is planned.
\<close>

theorem orphan_filter_behind_count_check:
  "(beforeExit_plan finished = Plan dropCounter kept seqs \<longrightarrow>
      length (filter (\<lambda>t. type_task t = Video) finished)
        = length (filter (\<lambda>t. type_task t = Audio) finished)
    \<and> kept = filter (\<lambda>t. id_task t \<in> id_task ` set (filter (\<lambda>t. type_task t = Audio) finished))
               (sortById (filter (\<lambda>t. type_task t = Video) finished))
    \<and> sorted (map id_task kept))
   \<and> beforeExit_plan orphan_example = CountMismatch"
proof -
  have "beforeExit_plan orphan_example = CountMismatch"
    by code_simp
  moreover have "sorted (map id_task (filter P (sortById ts)))" for P ts
    using sorted_sortById [of ts] by (simp add: sorted_filter)
  ultimately show ?thesis
    using beforeExit_plan_PlanD [of finished dropCounter kept seqs] by auto
qed

text \<open>
  With the audio ids 1, 3, 5 the counts agree, and the video task with id 2 is the one
  filtered out.
\<close>

theorem orphan_filter_behind_count_check_witness:
  "beforeExit_plan orphan_example_equal_counts =
     Plan 0 [videoTask 1, videoTask 3] [[], [videoTask 3]]
   \<and> [videoTask 1, videoTask 3] =
       filter (\<lambda>t. id_task t \<in> id_task ` set (filter (\<lambda>t. type_task t = Audio) orphan_example_equal_counts))
         (sortById (filter (\<lambda>t. type_task t = Video) orphan_example_equal_counts))"
proof -
  have h: "beforeExit_plan orphan_example_equal_counts =
     Plan 0 [videoTask 1, videoTask 3] [[], [videoTask 3]]"
    by code_simp
  from orphan_filter_behind_count_check
         [of orphan_example_equal_counts 0 "[videoTask 1, videoTask 3]" "[[], [videoTask 3]]"] h
  show ?thesis by blast
qed

text \<open>
  C2 as the specification states it fails on its own example: with video ids 1, 2, 3 and audio ids 1, 3
  the count check stops \<open>beforeExit\<close>, so there is no drop counter of 1 and there are no
  runs 1 and 3.
\<close>

theorem orphan_example_counterexample:
  "beforeExit_plan orphan_example = CountMismatch
   \<and> planIds (beforeExit_plan orphan_example) \<noteq> Some (1, [1, 3], [[1], [3]])"
  by code_simp


section \<open>\<open>beforeExit\<close> on a count mismatch and on an empty finished list\<close>

text \<open>
  C7. If the finished list holds a different number of video tasks than of audio tasks,
  \<open>beforeExit\<close> plans nothing: it logs the two errors, the second one with the path of
  the working directory, and exits the process. No run is computed, the muxer is not
  called, no output file is added and the working directory is not deleted.
\<close>

theorem beforeExit_count_mismatch:
  assumes "length (filter (\<lambda>t. type_task t = Video) (finishedTasks s))
             \<noteq> length (filter (\<lambda>t. type_task t = Audio) (finishedTasks s))"
  shows "beforeExit_plan (finishedTasks s) = CountMismatch
       \<and> snd (beforeExit mux s) =
           [Error MsgCountMismatch, Error (MsgTempFilesAt (WorkDir (workDirectoryName s))), Exit]
       \<and> outputFiles (fst (beforeExit mux s)) = outputFiles s"
  using beforeExit_plan_mismatch [OF assms] by (simp add: beforeExit_def)

theorem beforeExit_count_mismatch_witness:
  "length (filter (\<lambda>t. type_task t = Video) (finishedTasks mismatch_example))
     \<noteq> length (filter (\<lambda>t. type_task t = Audio) (finishedTasks mismatch_example))
   \<and> snd (beforeExit failing_first mismatch_example) =
       [Error MsgCountMismatch, Error (MsgTempFilesAt (WorkDir ''kkr_download_1'')), Exit]"
proof -
  have h: "length (filter (\<lambda>t. type_task t = Video) (finishedTasks mismatch_example))
     \<noteq> length (filter (\<lambda>t. type_task t = Audio) (finishedTasks mismatch_example))"
    by code_simp
  have w: "workDirectoryName mismatch_example = ''kkr_download_1''"
    by code_simp
  from beforeExit_count_mismatch [OF h, of failing_first] h w show ?thesis by simp
qed

text \<open>
  C10. If the finished list is empty, \<open>beforeExit\<close> does nothing but call \<open>clean\<close>: no
  counts are compared, nothing is planned, the object is unchanged, so no output file is
  added. With no output files \<open>clean\<close> deletes the working directory unless it is to be
  kept, disconnects the observer and exits: no error is logged and the muxer is not called.
\<close>

theorem beforeExit_nothing_finished:
  assumes "finishedTasks s = []"
  shows "beforeExit_plan (finishedTasks s) = NothingDone
       \<and> beforeExit mux s = (s, clean s (outputFiles s))
       \<and> (outputFiles s = [] \<longrightarrow>
            clean s (outputFiles s) =
              (if keepTemporaryFiles s then []
               else [Info MsgCleaning, DeleteDirectory (WorkDir (workDirectoryName s))])
              @ [Disconnect, Exit])"
  using assms by (simp add: beforeExit_def beforeExit_plan_def clean_def)

theorem beforeExit_nothing_finished_witness:
  "finishedTasks downloader = [] \<and> outputFiles downloader = []
   \<and> beforeExit failing_first downloader =
       (downloader, [Info MsgCleaning, DeleteDirectory (WorkDir ''kkr_download_1''), Disconnect, Exit])"
proof -
  have h: "finishedTasks downloader = []" and o: "outputFiles downloader = []"
    and k: "\<not> keepTemporaryFiles downloader"
    and w: "workDirectoryName downloader = ''kkr_download_1''"
    by (simp_all add: downloader_def initial_def)
  from beforeExit_nothing_finished [OF h, of failing_first] h o k w show ?thesis by simp
qed

section \<open>The merge loop\<close>

lemma isMux_muxCall: "isMux (muxCall s u i)"
  by (simp add: muxCall_def Let_def)

text \<open>A round whose files get written: it comes to its end and calls the muxer once.\<close>

lemma mergeOne_prepared:
  assumes "prepared s env i"
  shows "snd (snd (mergeOne s env u i sq outs))"
    and "muxCall s u i \<in> set (fst (mergeOne s env u i sq outs))"
    and "length (filter isMux (fst (mergeOne s env u i sq outs))) = 1"
    and "muxResult env i = None \<Longrightarrow>
           Error (MsgMuxFailed (i + 1)) \<in> set (fst (mergeOne s env u i sq outs))"
  using assms
  by (cases "isLowLatencyLiveStream s"; cases "muxResult env i"; cases sq;
      simp add: mergeOne_def prepared_def Let_def isMux_muxCall)+

text \<open>A round whose files do not get written: it stops before the muxer is called.\<close>

lemma mergeOne_not_prepared:
  assumes "\<not> prepared s env i"
  shows "\<not> snd (snd (mergeOne s env u i sq outs))"
    and "filter isMux (fst (mergeOne s env u i sq outs)) = []"
  using assms
  by (cases "isLowLatencyLiveStream s";
      auto simp: mergeOne_def prepared_def Let_def)+

lemma mergeLoop_Cons_prepared:
  assumes "prepared s env i"
  shows "fst (mergeLoop s env u i (sq # rest) outs) =
           fst (mergeOne s env u i sq outs)
           @ fst (mergeLoop s env u (i + 1) rest (fst (snd (mergeOne s env u i sq outs))))"
    and "snd (snd (mergeLoop s env u i (sq # rest) outs)) =
           snd (snd (mergeLoop s env u (i + 1) rest (fst (snd (mergeOne s env u i sq outs)))))"
  using mergeOne_prepared(1) [OF assms, of u sq outs]
  by (simp_all add: Let_def split_def)

lemma mergeLoop_prepared:
  assumes "\<forall>j < length seqs. prepared s env (i + j)"
  shows "snd (snd (mergeLoop s env u i seqs outs))"
    and "length (filter isMux (fst (mergeLoop s env u i seqs outs))) = length seqs"
    and "\<forall>j < length seqs. muxCall s u (i + j) \<in> set (fst (mergeLoop s env u i seqs outs))"
    and "\<forall>j < length seqs. muxResult env (i + j) = None \<longrightarrow>
           Error (MsgMuxFailed (i + j + 1)) \<in> set (fst (mergeLoop s env u i seqs outs))"
  using assms
proof (induction seqs arbitrary: i outs)
  case Nil
  {
    case 1 show ?case by simp
  next
    case 2 show ?case by simp
  next
    case 3 show ?case by simp
  next
    case 4 show ?case by simp
  }
next
  case (Cons sq rest)
  {
    case 1
    then have p: "prepared s env i" and r: "\<forall>j < length rest. prepared s env (i + 1 + j)"
      by force+
    from Cons.IH(1) [OF r] show ?case
      by (simp add: mergeLoop_Cons_prepared(2) [OF p] del: mergeLoop.simps)
  next
    case 2
    then have p: "prepared s env i" and r: "\<forall>j < length rest. prepared s env (i + 1 + j)"
      by force+
    from Cons.IH(2) [OF r] mergeOne_prepared(3) [OF p] show ?case
      by (simp add: mergeLoop_Cons_prepared(1) [OF p] del: mergeLoop.simps)
  next
    case 3
    then have p: "prepared s env i" and r: "\<forall>j < length rest. prepared s env (i + 1 + j)"
      by force+
    show ?case
    proof (intro allI impI)
      fix j assume j: "j < length (sq # rest)"
      show "muxCall s u (i + j) \<in> set (fst (mergeLoop s env u i (sq # rest) outs))"
      proof (cases j)
        case 0
        with mergeOne_prepared(2) [OF p] show ?thesis
          by (simp add: mergeLoop_Cons_prepared(1) [OF p] del: mergeLoop.simps)
      next
        case (Suc j')
        with j have "j' < length rest" by simp
        with Cons.IH(3) [OF r] Suc show ?thesis
          by (simp add: mergeLoop_Cons_prepared(1) [OF p] del: mergeLoop.simps)
      qed
    qed
  next
    case 4
    then have p: "prepared s env i" and r: "\<forall>j < length rest. prepared s env (i + 1 + j)"
      by force+
    show ?case
    proof (intro allI impI)
      fix j assume j: "j < length (sq # rest)" and n: "muxResult env (i + j) = None"
      show "Error (MsgMuxFailed (i + j + 1)) \<in> set (fst (mergeLoop s env u i (sq # rest) outs))"
      proof (cases j)
        case 0
        with mergeOne_prepared(4) [OF p] n show ?thesis
          by (simp add: mergeLoop_Cons_prepared(1) [OF p] del: mergeLoop.simps)
      next
        case (Suc j')
        with j n have "j' < length rest" "muxResult env (i + 1 + j') = None" by simp_all
        with Cons.IH(4) [OF r] Suc show ?thesis
          by (simp add: mergeLoop_Cons_prepared(1) [OF p] del: mergeLoop.simps)
      qed
    qed
  }
qed

text \<open>
  When the files of some run do not get written, the loop does not come to its end, and it
  calls the muxer for fewer runs than there are.
\<close>

lemma mergeLoop_not_prepared:
  assumes "\<exists>j < length seqs. \<not> prepared s env (i + j)"
  shows "\<not> snd (snd (mergeLoop s env u i seqs outs))
       \<and> length (filter isMux (fst (mergeLoop s env u i seqs outs))) < length seqs"
  using assms
proof (induction seqs arbitrary: i outs)
  case Nil
  then show ?case by simp
next
  case (Cons sq rest)
  show ?case
  proof (cases "prepared s env i")
    case False
    from mergeOne_not_prepared [OF False, of u sq outs] show ?thesis
      by (simp add: Let_def split_def)
  next
    case True
    from Cons.prems obtain j where j: "j < length (sq # rest)" "\<not> prepared s env (i + j)"
      by blast
    with True obtain j' where "j = Suc j'" by (cases j) auto
    with j have "\<exists>j' < length rest. \<not> prepared s env (i + 1 + j')" by auto
    from Cons.IH [OF this] mergeOne_prepared(3) [OF True] show ?thesis
      by (simp add: mergeLoop_Cons_prepared [OF True] del: mergeLoop.simps)
  qed
qed

text \<open>
  So a failure of \<open>mergeFiles\<close> or of \<open>fs.writeFileSync\<close> for one run is not isolated: the
  calls end with the uncaught exception, some run is never handed to the muxer, and neither
  the disconnect nor the exit of \<open>clean\<close> happens.
\<close>

lemma mergeAndClean_not_prepared:
  assumes "\<exists>i < length seqs. \<not> prepared s env i"
  shows "last (fst (mergeAndClean s env seqs)) = UncaughtError
       \<and> length (filter isMux (fst (mergeAndClean s env seqs))) < length seqs"
proof -
  from assms have "\<exists>j < length seqs. \<not> prepared s env (0 + j)" by simp
  from mergeLoop_not_prepared [OF this, of "length seqs > 1" "outputFiles s"]
  show ?thesis by (simp add: mergeAndClean_def Let_def split_def)
qed

lemma clean_shape:
  "\<exists>logs. clean s outs =
     (if keepTemporaryFiles s then []
      else [Info MsgCleaning, DeleteDirectory (WorkDir (workDirectoryName s))])
     @ [Disconnect] @ logs @ [Exit]
   \<and> (\<forall>e \<in> set logs. isInfo e)"
proof -
  let ?logs = "if length outs > 0 then
          (if length outs = 1 then [Info (MsgOutputAt (path_item (outs ! 0)))]
           else Info MsgOutputList # map (\<lambda>item. Info (MsgOutputItem (description item) (path_item item))) outs)
        else []"
  have "clean s outs =
     (if keepTemporaryFiles s then []
      else [Info MsgCleaning, DeleteDirectory (WorkDir (workDirectoryName s))])
     @ [Disconnect] @ ?logs @ [Exit]"
    by (simp add: clean_def)
  moreover have "\<forall>e \<in> set ?logs. isInfo e" by auto
  ultimately show ?thesis by blast
qed

text \<open>
  C9, as amended. Take any list of runs and any behaviour of the muxer, and let the files
  of every run get written (\<open>mergeFiles\<close> does not reject, \<open>fs.writeFileSync\<close> does not
  throw). Then the loop calls the muxer once per run, for every index in turn, and logs an
  error for every index on which the muxer failed; after these calls come those of
  \<open>clean\<close>: the working directory is deleted unless it is to be kept, the observer is
  disconnected, the output files are logged and the process exits. So a failed mux neither
  stops the later ones nor keeps \<open>clean\<close> from running.
\<close>

theorem mergeAndClean_isolates_mux_failures:
  assumes "\<forall>i < length seqs. prepared s env i"
  shows "\<exists>effs logs.
       fst (mergeAndClean s env seqs) =
         effs
         @ (if keepTemporaryFiles s then []
            else [Info MsgCleaning, DeleteDirectory (WorkDir (workDirectoryName s))])
         @ [Disconnect] @ logs @ [Exit]
     \<and> (\<forall>e \<in> set logs. isInfo e)
     \<and> length (filter isMux effs) = length seqs
     \<and> (\<forall>i < length seqs. muxCall s (length seqs > 1) i \<in> set effs)
     \<and> (\<forall>i < length seqs. muxResult env i = None \<longrightarrow> Error (MsgMuxFailed (i + 1)) \<in> set effs)"
proof -
  let ?r = "mergeLoop s env (length seqs > 1) 0 seqs (outputFiles s)"
  from assms have p: "\<forall>j < length seqs. prepared s env (0 + j)" by simp
  have ok: "snd (snd ?r)" by (rule mergeLoop_prepared(1) [OF p])
  obtain logs where
    c: "clean s (fst (snd ?r)) =
          (if keepTemporaryFiles s then []
           else [Info MsgCleaning, DeleteDirectory (WorkDir (workDirectoryName s))])
          @ [Disconnect] @ logs @ [Exit]"
    and l: "\<forall>e \<in> set logs. isInfo e"
    using clean_shape [of s "fst (snd ?r)"] by blast
  have "fst (mergeAndClean s env seqs) = fst ?r @ clean s (fst (snd ?r))"
    using ok by (simp add: mergeAndClean_def Let_def split_def)
  with c have "fst (mergeAndClean s env seqs) =
         fst ?r
         @ (if keepTemporaryFiles s then []
            else [Info MsgCleaning, DeleteDirectory (WorkDir (workDirectoryName s))])
         @ [Disconnect] @ logs @ [Exit]"
    by simp
  moreover have "length (filter isMux (fst ?r)) = length seqs"
    by (rule mergeLoop_prepared(2) [OF p])
  moreover have "\<forall>i < length seqs. muxCall s (length seqs > 1) i \<in> set (fst ?r)"
    using mergeLoop_prepared(3) [OF p, of "length seqs > 1" "outputFiles s"] by simp
  moreover have "\<forall>i < length seqs. muxResult env i = None \<longrightarrow>
                   Error (MsgMuxFailed (i + 1)) \<in> set (fst ?r)"
    using mergeLoop_prepared(4) [OF p, of "length seqs > 1" "outputFiles s"] by simp
  ultimately show ?thesis using l by blast
qed

text \<open>
  With two runs, every file written and a muxer that fails on the first run: the failure
  is logged, the second run is muxed all the same, and the calls end with those of
  \<open>clean\<close>.
\<close>

theorem mergeAndClean_isolates_mux_failures_witness:
  "length two_seqs = 2
   \<and> prepared downloader failing_first 0 \<and> prepared downloader failing_first 1
   \<and> muxResult failing_first 0 = None
   \<and> fst (mergeAndClean downloader failing_first two_seqs) =
       [WriteFile (VideoFiles ''kkr_download_1'' 0)
          [VideoDownload ''kkr_download_1'' 2, VideoDownload ''kkr_download_1'' 3],
        WriteFile (AudioFiles ''kkr_download_1'' 0)
          [AudioDownload ''kkr_download_1'' 2, AudioDownload ''kkr_download_1'' 3],
        MuxSequences (VideoFiles ''kkr_download_1'' 0) (AudioFiles ''kkr_download_1'' 0) (Some 1),
        Debug, Error (MsgMuxFailed 1),
        WriteFile (VideoFiles ''kkr_download_1'' 1) [VideoDownload ''kkr_download_1'' 7],
        WriteFile (AudioFiles ''kkr_download_1'' 1) [AudioDownload ''kkr_download_1'' 7],
        MuxSequences (VideoFiles ''kkr_download_1'' 1) (AudioFiles ''kkr_download_1'' 1) (Some 2),
        Info MsgCleaning, DeleteDirectory (WorkDir ''kkr_download_1''), Disconnect,
        Info (MsgOutputAt ''title_2.mp4''), Exit]
   \<and> (\<exists>effs. length (filter isMux effs) = length two_seqs
         \<and> Error (MsgMuxFailed 1) \<in> set effs
         \<and> muxCall downloader (length two_seqs > 1) 1 \<in> set effs)"
proof -
  have p: "\<forall>i < length two_seqs. prepared downloader failing_first i"
    by (simp add: prepared_def failing_first_def Let_def)
  have f: "muxResult failing_first 0 = None"
    by (simp add: failing_first_def)
  have l: "0 < length two_seqs" "1 < length two_seqs"
    by (simp_all add: two_seqs_def)
  have e: "fst (mergeAndClean downloader failing_first two_seqs) =
       [WriteFile (VideoFiles ''kkr_download_1'' 0)
          [VideoDownload ''kkr_download_1'' 2, VideoDownload ''kkr_download_1'' 3],
        WriteFile (AudioFiles ''kkr_download_1'' 0)
          [AudioDownload ''kkr_download_1'' 2, AudioDownload ''kkr_download_1'' 3],
        MuxSequences (VideoFiles ''kkr_download_1'' 0) (AudioFiles ''kkr_download_1'' 0) (Some 1),
        Debug, Error (MsgMuxFailed 1),
        WriteFile (VideoFiles ''kkr_download_1'' 1) [VideoDownload ''kkr_download_1'' 7],
        WriteFile (AudioFiles ''kkr_download_1'' 1) [AudioDownload ''kkr_download_1'' 7],
        MuxSequences (VideoFiles ''kkr_download_1'' 1) (AudioFiles ''kkr_download_1'' 1) (Some 2),
        Info MsgCleaning, DeleteDirectory (WorkDir ''kkr_download_1''), Disconnect,
        Info (MsgOutputAt ''title_2.mp4''), Exit]"
    by code_simp
  obtain effs where
    c: "length (filter isMux effs) = length two_seqs"
    and m: "\<forall>i < length two_seqs. muxCall downloader (length two_seqs > 1) i \<in> set effs"
    and x: "\<forall>i < length two_seqs. muxResult failing_first i = None
              \<longrightarrow> Error (MsgMuxFailed (i + 1)) \<in> set effs"
    using mergeAndClean_isolates_mux_failures [OF p] by blast
  from m l(2) have "muxCall downloader (length two_seqs > 1) 1 \<in> set effs" by blast
  moreover from x l(1) f have "Error (MsgMuxFailed 1) \<in> set effs" by force
  moreover have "length two_seqs = 2"
    by (simp add: two_seqs_def)
  moreover have "prepared downloader failing_first 0" "prepared downloader failing_first 1"
    by (simp_all add: prepared_def failing_first_def Let_def)
  ultimately show ?thesis using f e c by blast
qed

text \<open>
  C9 as the specification states it fails in the low-latency branch: with two runs and a
  muxer that would succeed on both, \<open>mergeFiles\<close> fails on the video file of the first
  run. The exception is not caught: nothing is logged for it, the second run is never
  attempted, the muxer is never called, and \<open>clean\<close> does not run.
\<close>

theorem mergeFiles_failure_counterexample:
  "fst (mergeAndClean lowLatencyDownloader concat_fails two_seqs) =
     [Info (MsgMergeVideo 1),
      MergeFiles [VideoDownload ''kkr_download_1'' 2, VideoDownload ''kkr_download_1'' 3]
        (VideoMerge ''kkr_download_1'' 0),
      UncaughtError]"
  by code_simp


section \<open>The scheduler\<close>

text \<open>
  A property that holds before \<open>checkQueue\<close>, is kept by the check for completion and is
  kept when a task is started below the cap, holds after \<open>checkQueue\<close>.
\<close>

lemma checkQueue_preserves:
  assumes "P s"
    and "\<And>s. P s \<Longrightarrow> P (completionCheck s)"
    and "\<And>s. P s \<Longrightarrow> nowRunningThreads s < maxRunningThreads s \<Longrightarrow> unfinishedTasks s \<noteq> []
            \<Longrightarrow> P (startNext s)"
  shows "P (checkQueue s)"
  using assms(1)
proof (induction s rule: checkQueue.induct)
  case (1 s)
  let ?s1 = "completionCheck s"
  have p1: "P ?s1" using "1.prems" assms(2) by blast
  show ?case
  proof (cases "nowRunningThreads ?s1 \<ge> maxRunningThreads ?s1 \<or> length (unfinishedTasks ?s1) = 0")
    case True
    then show ?thesis using p1 by (subst checkQueue.simps) (auto simp: Let_def)
  next
    case False
    then have a: "\<not> maxRunningThreads ?s1 \<le> nowRunningThreads ?s1"
      and b: "length (unfinishedTasks ?s1) \<noteq> 0" by auto
    have "P (startNext ?s1)" using assms(3) [OF p1] a b by simp
    from "1.IH" [OF refl a b this] a b show ?thesis
      by (subst checkQueue.simps) (simp add: Let_def)
  qed
qed

lemma sched_inv_completionCheck: "sched_inv s \<Longrightarrow> sched_inv (completionCheck s)"
  by (simp add: sched_inv_def completionCheck_def)

lemma sched_inv_startNext:
  assumes "sched_inv s" "nowRunningThreads s < maxRunningThreads s" "unfinishedTasks s \<noteq> []"
  shows "sched_inv (startNext s)"
proof -
  obtain t ts where u: "unfinishedTasks s = t # ts"
    using assms(3) by (cases "unfinishedTasks s") auto
  with assms(1,2) show ?thesis by (simp add: sched_inv_def startNext_def)
qed

lemma sched_inv_checkQueue: "sched_inv s \<Longrightarrow> sched_inv (checkQueue s)"
  by (rule checkQueue_preserves [where P = sched_inv])
     (simp_all add: sched_inv_completionCheck sched_inv_startNext)

lemma latched_checkQueue: "latched (checkQueue s)"
proof (induction s rule: checkQueue.induct)
  case (1 s)
  let ?s1 = "completionCheck s"
  have l1: "latched ?s1" by (simp add: latched_def completionCheck_def)
  show ?case
  proof (cases "nowRunningThreads ?s1 \<ge> maxRunningThreads ?s1 \<or> length (unfinishedTasks ?s1) = 0")
    case True
    then show ?thesis using l1 by (subst checkQueue.simps) (auto simp: Let_def)
  next
    case False
    then have a: "\<not> maxRunningThreads ?s1 \<le> nowRunningThreads ?s1"
      and b: "length (unfinishedTasks ?s1) \<noteq> 0" by auto
    from "1.IH" [OF refl a b] a b show ?thesis
      by (subst checkQueue.simps) (simp add: Let_def)
  qed
qed

text \<open>At the cap, \<open>checkQueue\<close> starts nothing.\<close>

lemma checkQueue_at_cap:
  assumes "maxRunningThreads s \<le> nowRunningThreads s"
  shows "checkQueue s = completionCheck s"
proof -
  have "maxRunningThreads (completionCheck s) \<le> nowRunningThreads (completionCheck s)"
    using assms by (simp add: completionCheck_def)
  then show ?thesis by (subst checkQueue.simps) (simp add: Let_def)
qed

lemma length_removeAt: "k < length xs \<Longrightarrow> length (removeAt k xs) = length xs - 1"
  by (simp add: removeAt_def)

lemma set_removeAt: "set (removeAt k xs) \<subseteq> set xs"
  by (auto simp: removeAt_def dest: in_set_takeD in_set_dropD)

lemma sched_inv_then:
  assumes "sched_inv s" "k < length (inflight s)"
  shows "sched_inv (checkQueue_then k s)"
proof -
  have "inflight s ! k \<in> set (inflight s)" using assms(2) by simp
  then show ?thesis
    using assms set_removeAt [of k "inflight s"]
    by (auto simp: checkQueue_then_def Let_def sched_inv_def length_removeAt)
qed

lemma sched_inv_catch:
  assumes "sched_inv s" "k < length (inflight s)"
  shows "sched_inv (checkQueue_catch k s)"
proof -
  have "inflight s ! k \<in> set (inflight s)" using assms(2) by simp
  then show ?thesis
    using assms set_removeAt [of k "inflight s"]
    by (auto simp: checkQueue_catch_def Let_def sched_inv_def length_removeAt)
qed

lemma sched_inv_newTasks:
  "sched_inv s \<Longrightarrow> sched_inv (s\<lparr>unfinishedTasks := unfinishedTasks s @ map (newTask k w) urls\<rparr>)"
  by (auto simp: sched_inv_def newTask_def)

lemma sched_inv_step:
  assumes "sched_inv s" "step e s = Some s'"
  shows "sched_inv s'"
proof (cases e)
  case (NewVideoChunks urls)
  with assms show ?thesis
    by (auto simp: step_def split: if_splits intro!: sched_inv_checkQueue sched_inv_newTasks)
next
  case (NewAudioChunks urls)
  with assms show ?thesis
    by (auto simp: step_def split: if_splits intro!: sched_inv_checkQueue sched_inv_newTasks)
next
  case End
  have "sched_inv (s\<lparr>stopFlag := True\<rparr>)" using assms(1) by (simp add: sched_inv_def)
  with End assms show ?thesis
    by (auto simp: step_def split: if_splits intro!: sched_inv_checkQueue)
next
  case Sigint
  have "sched_inv (s\<lparr>stopFlag := True\<rparr>)" "sched_inv (s\<lparr>exited := True\<rparr>)"
    using assms(1) by (simp_all add: sched_inv_def)
  with Sigint assms show ?thesis
    by (auto simp: step_def split: if_splits intro!: sched_inv_checkQueue)
next
  case (Downloaded k)
  with assms show ?thesis
    by (auto simp: step_def checkQueue_resolved_def split: if_splits
        intro!: sched_inv_checkQueue sched_inv_then)
next
  case (Failed k)
  with assms show ?thesis
    by (auto simp: step_def checkQueue_rejected_def split: if_splits
        intro!: sched_inv_checkQueue sched_inv_catch)
qed

lemma latched_step:
  assumes "latched s" "step e s = Some s'"
  shows "latched s'"
proof (cases e)
  case Sigint
  have "latched (s\<lparr>exited := True\<rparr>)" using assms(1) by (simp add: latched_def)
  with Sigint assms show ?thesis
    by (auto simp: step_def latched_checkQueue split: if_splits)
qed (use assms in \<open>auto simp: step_def latched_checkQueue checkQueue_resolved_def
       checkQueue_rejected_def split: if_splits\<close>)

lemma sched_inv_initial: "sched_inv (initial keep lowLatency workDir outName)"
  by (simp add: sched_inv_def initial_def)

lemma latched_initial: "latched (initial keep lowLatency workDir outName)"
  by (simp add: latched_def initial_def)

lemma exec_invariant:
  assumes "P s" and "\<And>e s s'. P s \<Longrightarrow> step e s = Some s' \<Longrightarrow> P s'"
    and "exec evs s = Some s'"
  shows "P s'"
  using assms(1,3)
proof (induction evs arbitrary: s)
  case Nil
  then show ?case by simp
next
  case (Cons e es)
  then show ?case using assms(2) by (auto split: option.splits)
qed

lemma sched_inv_reachable:
  "exec evs (initial keep lowLatency workDir outName) = Some s \<Longrightarrow> sched_inv s"
  using sched_inv_initial sched_inv_step by (rule exec_invariant)

lemma latched_reachable:
  "exec evs (initial keep lowLatency workDir outName) = Some s \<Longrightarrow> latched s"
  using latched_initial latched_step by (rule exec_invariant)

text \<open>
  C6. After every list of events the counter of running fetches is the number of tasks in
  flight and is at most the cap of 16. \<open>checkQueue\<close> starts nothing when the counter has
  reached the cap, a start raises the counter by one, and both ends of a fetch, success and
  failure, lower it by one.
\<close>

theorem inflight_never_exceeds_cap:
  assumes "exec evs (initial keep lowLatency workDir outName) = Some s"
  shows "maxRunningThreads s = 16
       \<and> nowRunningThreads s \<le> 16
       \<and> nowRunningThreads s = int (length (inflight s))
       \<and> (maxRunningThreads s \<le> nowRunningThreads s \<longrightarrow> inflight (checkQueue s) = inflight s)
       \<and> nowRunningThreads (startNext s) = nowRunningThreads s + 1
       \<and> nowRunningThreads (checkQueue_then k s) = nowRunningThreads s - 1
       \<and> nowRunningThreads (checkQueue_catch k s) = nowRunningThreads s - 1"
proof -
  have "sched_inv s" using assms by (rule sched_inv_reachable)
  then have "maxRunningThreads s = 16 \<and> nowRunningThreads s \<le> 16
       \<and> nowRunningThreads s = int (length (inflight s))"
    by (simp add: sched_inv_def)
  moreover have "maxRunningThreads s \<le> nowRunningThreads s \<longrightarrow> inflight (checkQueue s) = inflight s"
    by (simp add: checkQueue_at_cap completionCheck_def)
  moreover have "nowRunningThreads (startNext s) = nowRunningThreads s + 1"
    by (simp add: startNext_def)
  moreover have "nowRunningThreads (checkQueue_then k s) = nowRunningThreads s - 1"
    by (simp add: checkQueue_then_def Let_def)
  moreover have "nowRunningThreads (checkQueue_catch k s) = nowRunningThreads s - 1"
    by (simp add: checkQueue_catch_def Let_def)
  ultimately show ?thesis by blast
qed

text \<open>Twenty chunks announced at once: sixteen fetches run, four chunks wait.\<close>

theorem inflight_never_exceeds_cap_witness:
  "exec burst_run downloader = Some (the (exec burst_run downloader))
   \<and> nowRunningThreads (the (exec burst_run downloader)) = 16
   \<and> maxRunningThreads (the (exec burst_run downloader)) \<le> nowRunningThreads (the (exec burst_run downloader))
   \<and> length (inflight (the (exec burst_run downloader))) = 16
   \<and> length (unfinishedTasks (the (exec burst_run downloader))) = 4
   \<and> inflight (checkQueue (the (exec burst_run downloader))) = inflight (the (exec burst_run downloader))"
proof -
  define S where "S = the (exec burst_run downloader)"
  have h: "exec burst_run (initial False False ''kkr_download_1'' ''title'') = Some S"
    unfolding S_def by code_simp
  have r: "nowRunningThreads S = 16"
    unfolding S_def by code_simp
  have u: "length (unfinishedTasks S) = 4"
    unfolding S_def by code_simp
  from inflight_never_exceeds_cap [OF h] r u h show ?thesis
    unfolding S_def [symmetric] by (simp add: downloader_def)
qed

text \<open>
  C5. After every list of events \<open>beforeExit\<close> has been called at most once, it has been
  called exactly when \<open>finishFlag\<close> is set, and it has been called whenever the condition
  of line 117 holds: no fetch running, the queue empty and the stop flag set.
\<close>

theorem beforeExit_called_exactly_once:
  assumes "exec evs (initial keep lowLatency workDir outName) = Some s"
  shows "beforeExitCalls s \<le> 1
       \<and> (beforeExitCalls s = 1 \<longleftrightarrow> finishFlag s)
       \<and> (nowRunningThreads s = 0 \<and> unfinishedTasks s = [] \<and> stopFlag s \<longrightarrow> beforeExitCalls s = 1)"
proof -
  have "sched_inv s" using assms by (rule sched_inv_reachable)
  moreover have "latched s" using assms by (rule latched_reachable)
  ultimately show ?thesis by (simp add: sched_inv_def latched_def)
qed

text \<open>
  A run that drains, and after that sees the stream end a second time and a late chunk
  arrive and finish: the condition has held after four events, \<open>beforeExit\<close> was called
  once.
\<close>

theorem beforeExit_called_exactly_once_witness:
  "exec drained_run downloader = Some (the (exec drained_run downloader))
   \<and> nowRunningThreads (the (exec drained_run downloader)) = 0
   \<and> unfinishedTasks (the (exec drained_run downloader)) = []
   \<and> stopFlag (the (exec drained_run downloader))
   \<and> beforeExitCalls (the (exec drained_run downloader)) = 1"
proof -
  define S where "S = the (exec drained_run downloader)"
  have h: "exec drained_run (initial False False ''kkr_download_1'' ''title'') = Some S"
    unfolding S_def by code_simp
  have c: "nowRunningThreads S = 0 \<and> unfinishedTasks S = [] \<and> stopFlag S"
    unfolding S_def by code_simp
  from beforeExit_called_exactly_once [OF h] c h show ?thesis
    unfolding S_def [symmetric] by (simp add: downloader_def)
qed

text \<open>
  Tasks are never duplicated: the object never holds more tasks than the observer has
  announced. \<open>checkQueue\<close> only moves tasks from the queue into flight.
\<close>

lemma length_sortById [simp]: "length (sortById ts) = length ts"
  by (simp add: sortById_def)

lemma tracked_checkQueue: "tracked (checkQueue s) = tracked s"
proof (rule checkQueue_preserves [where P = "\<lambda>s'. tracked s' = tracked s"])
  show "tracked s = tracked s" by simp
next
  fix s' assume "tracked s' = tracked s"
  then show "tracked (completionCheck s') = tracked s"
    by (auto simp: tracked_def completionCheck_def)
next
  fix s' assume "tracked s' = tracked s" and "unfinishedTasks s' \<noteq> []"
  then show "tracked (startNext s') = tracked s"
    by (cases "unfinishedTasks s'") (auto simp: tracked_def startNext_def)
qed

lemma tracked_step:
  assumes "step e s = Some s'"
  shows "tracked s' \<le> tracked s + discovered [e]"
proof -
  from assms have ne: "\<not> exited s" by (auto simp: step_def split: if_splits)
  show ?thesis
  proof (cases e)
    case (NewVideoChunks urls)
    with assms ne have "s' = checkQueue (s\<lparr>unfinishedTasks :=
        unfinishedTasks s @ map (newTask Video (workDirectoryName s)) urls\<rparr>)"
      by (simp add: step_def)
    then have "tracked s' = tracked (s\<lparr>unfinishedTasks :=
        unfinishedTasks s @ map (newTask Video (workDirectoryName s)) urls\<rparr>)"
      by (simp only: tracked_checkQueue)
    with NewVideoChunks show ?thesis by (simp add: tracked_def)
  next
    case (NewAudioChunks urls)
    with assms ne have "s' = checkQueue (s\<lparr>unfinishedTasks :=
        unfinishedTasks s @ map (newTask Audio (workDirectoryName s)) urls\<rparr>)"
      by (simp add: step_def)
    then have "tracked s' = tracked (s\<lparr>unfinishedTasks :=
        unfinishedTasks s @ map (newTask Audio (workDirectoryName s)) urls\<rparr>)"
      by (simp only: tracked_checkQueue)
    with NewAudioChunks show ?thesis by (simp add: tracked_def)
  next
    case End
    with assms ne have "s' = checkQueue (s\<lparr>stopFlag := True\<rparr>)"
      by (simp add: step_def)
    then have "tracked s' = tracked (s\<lparr>stopFlag := True\<rparr>)"
      by (simp only: tracked_checkQueue)
    then show ?thesis by (simp add: tracked_def)
  next
    case Sigint
    with assms ne have "s' = checkQueue (s\<lparr>stopFlag := True\<rparr>) \<or> s' = s\<lparr>exited := True\<rparr>"
      by (auto simp: step_def split: if_splits)
    then have "tracked s' = tracked (s\<lparr>stopFlag := True\<rparr>) \<or> tracked s' = tracked (s\<lparr>exited := True\<rparr>)"
      by (auto simp only: tracked_checkQueue)
    then show ?thesis by (auto simp: tracked_def)
  next
    case (Downloaded k)
    with assms have k: "k < length (inflight s)" and s': "s' = checkQueue (checkQueue_then k s)"
      by (auto simp: step_def checkQueue_resolved_def split: if_splits)
    from s' have "tracked s' = tracked (checkQueue_then k s)"
      by (simp only: tracked_checkQueue)
    with k show ?thesis
      by (simp add: tracked_def checkQueue_then_def Let_def length_removeAt)
  next
    case (Failed k)
    with assms have k: "k < length (inflight s)" and s': "s' = checkQueue (checkQueue_catch k s)"
      by (auto simp: step_def checkQueue_rejected_def split: if_splits)
    from s' have "tracked s' = tracked (checkQueue_catch k s)"
      by (simp only: tracked_checkQueue)
    with k show ?thesis
      by (auto simp: tracked_def checkQueue_catch_def Let_def length_removeAt)
  qed
qed

lemma discovered_Cons: "discovered (e # es) = discovered [e] + discovered es"
  by (cases e) simp_all

lemma tracked_exec:
  "exec evs s = Some s' \<Longrightarrow> tracked s' \<le> tracked s + discovered evs"
proof (induction evs arbitrary: s)
  case Nil
  then show ?case by simp
next
  case (Cons e es)
  then obtain s1 where 1: "step e s = Some s1" and 2: "exec es s1 = Some s'"
    by (auto split: option.splits)
  from tracked_step [OF 1] Cons.IH [OF 2] show ?case
    by (subst discovered_Cons) simp
qed

lemma never_more_than_discovered:
  assumes "exec evs (initial keep lowLatency workDir outName) = Some s"
  shows "length (finishedTasks s) + length (dropedTasks s) \<le> discovered evs"
proof -
  have "tracked (initial keep lowLatency workDir outName) = 0"
    by (simp add: tracked_def initial_def)
  with tracked_exec [OF assms] show ?thesis by (simp add: tracked_def)
qed

text \<open>
  What the \<open>catch\<close> block does with the task whose fetch failed: the retry count goes up
  by one; up to 10 the task goes to the back of the queue, behind everything queued; beyond
  10 the queue is left as it is. Neither \<open>finishedTasks\<close> nor \<open>dropedTasks\<close> changes.
\<close>

lemma checkQueue_catch_requeues:
  "unfinishedTasks (checkQueue_catch k s) =
     (if retry (inflight s ! k) + 1 \<le> 10
      then unfinishedTasks s @ [(inflight s ! k)\<lparr>retry := retry (inflight s ! k) + 1\<rparr>]
      else unfinishedTasks s)
   \<and> finishedTasks (checkQueue_catch k s) = finishedTasks s
   \<and> dropedTasks (checkQueue_catch k s) = dropedTasks s"
  by (simp add: checkQueue_catch_def Let_def)

text \<open>
  No task that is finished has failed more than 10 times, and nothing is ever put into
  \<open>dropedTasks\<close>.
\<close>

lemma finished_within_budget_and_nothing_droped:
  assumes "exec evs (initial keep lowLatency workDir outName) = Some s"
  shows "(\<forall>t \<in> set (finishedTasks s). retry t \<le> 10) \<and> dropedTasks s = []"
  using sched_inv_reachable [OF assms] by (simp add: sched_inv_def)

text \<open>
  C4. Two chunks are announced and the fetch of chunk 1 fails eleven times. After ten
  failures its task is in flight again with a retry count of 10. After the eleventh it is
  gone: it is not queued, not in flight and not finished, as the specification says, but it
  is not in \<open>dropedTasks\<close> either, where the specification wants it.
\<close>

theorem exhausted_task_is_not_droped:
  "map_option (\<lambda>s. (unfinishedTasks s, map (\<lambda>t. (id_task t, retry t)) (inflight s),
                     finishedTasks s, dropedTasks s))
     (exec (butlast exhausting_run) downloader)
   = Some ([], [(2, 0), (1, 10)], [], [])
   \<and> map_option (\<lambda>s. (unfinishedTasks s, map (\<lambda>t. (id_task t, retry t)) (inflight s),
                     finishedTasks s, dropedTasks s))
     (exec exhausting_run downloader)
   = Some ([], [(2, 0)], [], [])"
  by code_simp

text \<open>
  C3. Two chunks are announced, one is downloaded, the other fails eleven times, the stream
  ends. The run is drained and \<open>beforeExit\<close> has been called, with one finished task and
  no dropped task for two discovered ones.
\<close>

theorem lossy_run_breaks_conservation:
  "discovered lossy_run = 2
   \<and> map_option (\<lambda>s. (nowRunningThreads s, length (unfinishedTasks s), stopFlag s, finishFlag s,
                       length (finishedTasks s), length (dropedTasks s)))
       (exec lossy_run downloader)
     = Some (0, 0, True, True, 1, 0)"
  by code_simp


end
